theory Spec2Isabelle
  imports Main "HOL-Library.Multiset" "HOL-Library.Extended_Nat"
begin

section \<open>JavaScript values\<close>

text \<open>
  Strings are \<^typ>\<open>string\<close>, one \<^typ>\<open>char\<close> per code unit. An object property that may
  be absent is an \<^typ>\<open>'a option\<close>, with \<^term>\<open>None\<close> for \<^verbatim>\<open>undefined\<close>. An exception is
  the \<^term>\<open>Inl\<close> branch of a sum. The length of an array is a natural number (an array holds
  fewer than \<open>2^32\<close> elements, and counting them one by one is exact). A count of elements
  read from an issue is a double that holds a natural number; a sum of such counts is a
  double again, or \<^verbatim>\<open>Infinity\<close>, and is an \<^typ>\<open>enat\<close>.
\<close>

datatype error = TypeError | ScanError string

text \<open>
  The addition of two doubles that hold natural numbers: the exact sum, rounded to the
  nearest double, a tie going to the even significand. A double has a significand of 53
  bits: \<^term>\<open>ulp u n\<close> is the least power of two, from \<open>u\<close> on, that brings \<open>n\<close> below \<open>2^53\<close>
  (9007199254740992) when \<open>n\<close> is divided by it, the distance between the doubles around
  \<open>n\<close>. A sum that rounds to \<open>2^1024\<close> or more is \<^verbatim>\<open>Infinity\<close>. The two numbers added are
  doubles themselves: a natural number that no double holds, such as \<open>2^53 + 1\<close>, is the value
  of no count.
\<close>

function ulp :: "nat \<Rightarrow> nat \<Rightarrow> nat" where
  "ulp u n = (if u = 0 \<or> n div u < 9007199254740992 then u else ulp (2 * u) n)"
  by pat_completeness auto
termination
proof (relation "measure (\<lambda>(u, n). n div u)")
  show "wf (measure (\<lambda>(u, n). n div u))"
    by simp
next
  fix u n :: nat
  assume "\<not> (u = 0 \<or> n div u < 9007199254740992)"
  then have "0 < n div u"
    by simp
  moreover have "n div (2 * u) = (n div u) div 2"
    by (simp add: div_mult2_eq mult.commute)
  ultimately show "((2 * u, n), (u, n)) \<in> measure (\<lambda>(u, n). n div u)"
    by simp
qed

declare ulp.simps [simp del]

definition double_round :: "nat \<Rightarrow> nat" where
  "double_round n =
     (let u = ulp 1 n; q = n div u; r = n mod u
      in if 2 * r < u then q * u
         else if u < 2 * r then (q + 1) * u
         else if even q then q * u
         else (q + 1) * u)"

definition double_add :: "enat \<Rightarrow> enat \<Rightarrow> enat" where
  "double_add a b =
     (case (a, b) of
        (enat x, enat y) \<Rightarrow>
          (let n = double_round (x + y) in if n < 2 ^ 1024 then enat n else \<infinity>)
      | _ \<Rightarrow> \<infinity>)"

text \<open>Interpolation \<^verbatim>\<open>${v}\<close> in a template literal.\<close>

definition js_str :: "string option \<Rightarrow> string" where
  "js_str v = (case v of None \<Rightarrow> ''undefined'' | Some s \<Rightarrow> s)"

definition digit_char :: "nat \<Rightarrow> char" where
  "digit_char d = ''0123456789'' ! (d mod 10)"

fun string_of_nat :: "nat \<Rightarrow> string" where
  "string_of_nat n =
     (if n < 10 then [digit_char n] else string_of_nat (n div 10) @ [digit_char n])"

declare string_of_nat.simps [simp del]

text \<open>
  \<^verbatim>\<open>String.prototype.toLowerCase\<close> on the letters A to Z. No other character lowers to a
  letter of \<^verbatim>\<open>error\<close> or \<^verbatim>\<open>warning\<close> as a single code unit, so the comparisons below
  are decided by these letters alone.
\<close>

definition lower_char :: "char \<Rightarrow> char" where
  "lower_char c =
     (case map_of (zip ''ABCDEFGHIJKLMNOPQRSTUVWXYZ'' ''abcdefghijklmnopqrstuvwxyz'') c of
        Some l \<Rightarrow> l
      | None \<Rightarrow> c)"

definition toLowerCase :: "string \<Rightarrow> string" where
  "toLowerCase s = map lower_char s"

text \<open>
  The names every object literal \<^verbatim>\<open>{}\<close> inherits from \<^verbatim>\<open>Object.prototype\<close>. Reading one
  of them from an object that has no own property of that name gives a function (or, for
  \<^verbatim>\<open>__proto__\<close>, the prototype object), which is truthy.
\<close>

definition Object_prototype_keys :: "string list" where
  "Object_prototype_keys =
     [''constructor'', ''__defineGetter__'', ''__defineSetter__'', ''hasOwnProperty'',
      ''__lookupGetter__'', ''__lookupSetter__'', ''isPrototypeOf'', ''propertyIsEnumerable'',
      ''toString'', ''valueOf'', ''__proto__'', ''toLocaleString'']"

section \<open>The regular expressions of the code parser\<close>

text \<open>
  The patterns of the program are sequences of literal text, \<^verbatim>\<open>(\d)\<close> and \<^verbatim>\<open>(\d+)\<close>.
  \<^term>\<open>match_here\<close> matches a pattern at the start of a string and returns the matched text
  and the captured groups; \<^verbatim>\<open>\d+\<close> is greedy and backtracks. \<^term>\<open>js_match\<close> is
  \<^verbatim>\<open>String.prototype.match\<close> with a pattern that has no flag: the leftmost match.
\<close>

definition is_digit :: "char \<Rightarrow> bool" where
  "is_digit c = (c \<in> set ''0123456789'')"

datatype piece = Lit string | Digit | Digits

fun first_some :: "'a option list \<Rightarrow> 'a option" where
  "first_some [] = None"
| "first_some (None # xs) = first_some xs"
| "first_some (Some x # xs) = Some x"

fun match_here :: "piece list \<Rightarrow> string \<Rightarrow> (string \<times> string list) option" where
  "match_here [] s = Some ([], [])"
| "match_here (Lit l # ps) s =
     (if take (length l) s = l
      then map_option (\<lambda>(m, gs). (l @ m, gs)) (match_here ps (drop (length l) s))
      else None)"
| "match_here (Digit # ps) s =
     (case s of
        [] \<Rightarrow> None
      | c # cs \<Rightarrow>
          if is_digit c then map_option (\<lambda>(m, gs). (c # m, [c] # gs)) (match_here ps cs)
          else None)"
| "match_here (Digits # ps) s =
     first_some
       (map (\<lambda>n. map_option (\<lambda>(m, gs). (take n s @ m, take n s # gs))
                    (match_here ps (drop n s)))
            (rev [1..<Suc (length (takeWhile is_digit s))]))"

fun js_match :: "piece list \<Rightarrow> string \<Rightarrow> string list option" where
  "js_match ps [] = map_option snd (match_here ps [])"
| "js_match ps (c # cs) =
     (case match_here ps (c # cs) of
        Some (m, gs) \<Rightarrow> Some gs
      | None \<Rightarrow> js_match ps cs)"

text \<open>\<^verbatim>\<open>/Principle(\d)\.Guideline(\d+)_(\d+)\.(\d+)_(\d+)_(\d+)/\<close> (reporter.js).\<close>

definition wcag_pattern :: "piece list" where
  "wcag_pattern =
     [Lit ''Principle'', Digit, Lit ''.'', Lit ''Guideline'', Digits, Lit ''_'', Digits,
      Lit ''.'', Digits, Lit ''_'', Digits, Lit ''_'', Digits]"

text \<open>\<^verbatim>\<open>/(\d+)\.(\d+)\.(\d+)/\<close> (reporter.js, the alternative format).\<close>

definition alt_pattern :: "piece list" where
  "alt_pattern = [Digits, Lit ''.'', Digits, Lit ''.'', Digits]"

text \<open>\<^verbatim>\<open>/Guideline(\d+)_(\d+)\.(\d+)_(\d+)_(\d+)/\<close> (index.js).\<close>

definition md_pattern :: "piece list" where
  "md_pattern =
     [Lit ''Guideline'', Digits, Lit ''_'', Digits, Lit ''.'', Digits, Lit ''_'', Digits,
      Lit ''_'', Digits]"

section \<open>Issues\<close>

text \<open>
  One record serves for an issue as the scanner reports it and for an issue after the
  per-page grouping, which adds \<open>elements\<close> and \<open>affectedElements\<close>. The field
  \<^verbatim>\<open>runnerExtras\<close>, an object copied through unchanged and read by nothing, is left out.
\<close>

record issue =
  code :: "string option"
  type :: "string option"
  typeCode :: "nat option"
  message :: "string option"
  context' :: "string option"
  selector :: "string option"
  runner :: "string option"
  elements :: "(string option \<times> string option) list option"
  affectedElements :: "nat option"

section \<open>WCAGAnalyzer: grouping the issues of one page\<close>

text \<open>The key \<^verbatim>\<open>`${issue.code}_${issue.type}`\<close>.\<close>

definition issue_key :: "issue \<Rightarrow> string" where
  "issue_key i = js_str (code i) @ ''_'' @ js_str (type i)"

text \<open>The object stored under a key of \<^verbatim>\<open>grouped\<close>.\<close>

record grouped_issue =
  g_code :: "string option"
  g_type :: "string option"
  g_typeCode :: "nat option"
  g_message :: "string option"
  g_context :: "string option"
  g_selector :: "string option"
  g_runner :: "string option"
  g_elements :: "(string option \<times> string option) list"

definition new_group :: "issue \<Rightarrow> grouped_issue" where
  "new_group i =
     \<lparr>g_code = code i, g_type = type i, g_typeCode = typeCode i, g_message = message i,
      g_context = context' i, g_selector = selector i, g_runner = runner i, g_elements = []\<rparr>"

text \<open>
  One turn of the loop over the issues. \<^verbatim>\<open>grouped\<close> is an association list in insertion
  order, the order in which \<^verbatim>\<open>Object.values\<close> lists keys that are not array indices (a key
  holds an underscore, so it is none). A key that names an inherited property is never
  stored: \<^verbatim>\<open>grouped[key]\<close> is truthy, its \<^verbatim>\<open>elements\<close> is undefined, and \<^verbatim>\<open>push\<close> throws.
\<close>

definition group_step ::
  "(string \<times> grouped_issue) list \<Rightarrow> issue \<Rightarrow> error + (string \<times> grouped_issue) list" where
  "group_step grouped i =
     (let key = issue_key i;
          grouped' = (if map_of grouped key = None \<and> key \<notin> set Object_prototype_keys
                      then grouped @ [(key, new_group i)] else grouped)
      in if map_of grouped' key = None then Inl TypeError
         else Inr (map (\<lambda>(k, g). if k = key
                          then (k, g\<lparr>g_elements := g_elements g @ [(selector i, context' i)]\<rparr>)
                          else (k, g)) grouped'))"

fun group_loop ::
  "(string \<times> grouped_issue) list \<Rightarrow> issue list \<Rightarrow> error + (string \<times> grouped_issue) list" where
  "group_loop grouped [] = Inr grouped"
| "group_loop grouped (i # is) =
     (case group_step grouped i of
        Inl e \<Rightarrow> Inl e
      | Inr grouped' \<Rightarrow> group_loop grouped' is)"

text \<open>\<^verbatim>\<open> (Affects ${n} element${n > 1 ? 's' : ''})\<close>\<close>

definition affects_suffix :: "nat \<Rightarrow> string" where
  "affects_suffix n =
     '' (Affects '' @ string_of_nat n @ '' element'' @ (if n > 1 then ''s'' else []) @ '')''"

definition finish_group :: "grouped_issue \<Rightarrow> issue" where
  "finish_group g =
     \<lparr>code = g_code g, type = g_type g, typeCode = g_typeCode g,
      message = Some (js_str (g_message g) @ affects_suffix (length (g_elements g))),
      context' = g_context g, selector = g_selector g, runner = g_runner g,
      elements = Some (g_elements g), affectedElements = Some (length (g_elements g))\<rparr>"

definition groupIssuesByType :: "issue list \<Rightarrow> error + issue list" where
  "groupIssuesByType issues =
     (case group_loop [] issues of
        Inl e \<Rightarrow> Inl e
      | Inr grouped \<Rightarrow> Inr (map (finish_group \<circ> snd) grouped))"

section \<open>WCAGAnalyzer: the tally by impact\<close>

record impact =
  critical :: nat
  serious :: nat
  moderate :: nat
  minor :: nat

text \<open>\<^verbatim>\<open>issue.type?.toLowerCase() || 'notice'\<close>: the empty string is falsy.\<close>

definition impact_type :: "issue \<Rightarrow> string" where
  "impact_type i =
     (case type i of
        None \<Rightarrow> ''notice''
      | Some t \<Rightarrow> if toLowerCase t = [] then ''notice'' else toLowerCase t)"

definition impact_step :: "impact \<Rightarrow> issue \<Rightarrow> impact" where
  "impact_step imp i =
     (if impact_type i = ''error'' then imp\<lparr>critical := critical imp + 1\<rparr>
      else if impact_type i = ''warning'' then imp\<lparr>serious := serious imp + 1\<rparr>
      else imp\<lparr>moderate := moderate imp + 1\<rparr>)"

definition groupIssuesByImpact :: "issue list \<Rightarrow> impact" where
  "groupIssuesByImpact issues =
     foldl impact_step \<lparr>critical = 0, serious = 0, moderate = 0, minor = 0\<rparr> issues"

section \<open>WCAGAnalyzer: pages and websites\<close>

text \<open>
  The scanner (pa11y in a browser) is a parameter: for a URL it fails with a message or
  returns the page title and the issues. Time stamps and the cache-busting query
  parameter are left out.
\<close>

record pa11y_result =
  pa11y_pageTitle :: "string option"
  pa11y_issues :: "issue list"

record page =
  url :: string
  pageTitle :: string
  issues :: "issue list"
  page_totalIssues :: nat

definition analyzePage :: "(string \<Rightarrow> string + pa11y_result) \<Rightarrow> string \<Rightarrow> error + page" where
  "analyzePage pa11y u =
     (case pa11y u of
        Inl msg \<Rightarrow> Inl (ScanError msg)
      | Inr results \<Rightarrow>
          (case groupIssuesByType (pa11y_issues results) of
             Inl e \<Rightarrow> Inl e
           | Inr groupedIssues \<Rightarrow>
               Inr \<lparr>url = u,
                    pageTitle = (case pa11y_pageTitle results of None \<Rightarrow> [] | Some t \<Rightarrow> t),
                    issues = groupedIssues,
                    page_totalIssues = length (pa11y_issues results)\<rparr>))"

text \<open>\<^verbatim>\<open>[...new Set(urls)]\<close>: the first occurrence of each URL, in order.\<close>

fun uniqueUrls :: "string list \<Rightarrow> string list" where
  "uniqueUrls [] = []"
| "uniqueUrls (u # us) = u # uniqueUrls (filter (\<lambda>v. v \<noteq> u) us)"

record website =
  baseUrl :: string
  pagesAnalyzed :: nat
  totalIssues :: nat
  pageAnalyses :: "page list"
  issuesByImpact :: impact
  failedPages :: "(string \<times> error) list"

text \<open>The state of the loop over the URLs: \<^verbatim>\<open>pageAnalyses\<close>, \<^verbatim>\<open>failedPages\<close>, \<^verbatim>\<open>allIssues\<close>.\<close>

fun analyze_loop ::
  "(string \<Rightarrow> string + pa11y_result) \<Rightarrow> string list \<Rightarrow>
   page list \<times> (string \<times> error) list \<times> issue list \<Rightarrow>
   page list \<times> (string \<times> error) list \<times> issue list" where
  "analyze_loop pa11y [] st = st"
| "analyze_loop pa11y (u # us) (pages, failed, allIssues) =
     (case analyzePage pa11y u of
        Inr analysis \<Rightarrow>
          analyze_loop pa11y us (pages @ [analysis], failed, allIssues @ issues analysis)
      | Inl e \<Rightarrow> analyze_loop pa11y us (pages, failed @ [(u, e)], allIssues))"

definition analyzeWebsite :: "(string \<Rightarrow> string + pa11y_result) \<Rightarrow> string list \<Rightarrow> website" where
  "analyzeWebsite pa11y urls =
     (case analyze_loop pa11y (uniqueUrls urls) ([], [], []) of
        (pages, failed, allIssues) \<Rightarrow>
          \<lparr>baseUrl = (case uniqueUrls urls of [] \<Rightarrow> [] | u # _ \<Rightarrow> u),
           pagesAnalyzed = length pages,
           totalIssues = length allIssues,
           pageAnalyses = pages,
           issuesByImpact = groupIssuesByImpact allIssues,
           failedPages = failed\<rparr>)"

section \<open>ExcelReporter: mapping issues to success criteria\<close>

text \<open>
  What the reporters read of an analysis: \<^verbatim>\<open>pageAnalyses\<close> (a website analysis) or
  \<^verbatim>\<open>issues\<close> (the analysis of one page); either may be absent.
\<close>

record analysis =
  an_pageAnalyses :: "page list option"
  an_issues :: "issue list option"

text \<open>An entry of a criterion's \<^verbatim>\<open>issues\<close> array, and the object stored for a criterion.\<close>

record violation =
  v_type :: "string option"
  v_message :: "string option"
  v_selector :: "string option"
  v_affectedElements :: nat

record bucket =
  principle :: string
  criterion :: string
  b_issues :: "violation list"

text \<open>\<^verbatim>\<open>issue.affectedElements || 1\<close>: an absent count and the count 0 are falsy.\<close>

definition affected_or_1 :: "issue \<Rightarrow> nat" where
  "affected_or_1 i =
     (case affectedElements i of None \<Rightarrow> 1 | Some n \<Rightarrow> if n = 0 then 1 else n)"

definition to_violation :: "issue \<Rightarrow> violation" where
  "to_violation i =
     \<lparr>v_type = type i, v_message = message i, v_selector = selector i,
      v_affectedElements = affected_or_1 i\<rparr>"

text \<open>
  Creating the bucket of a criterion if there is none, then pushing the issue. A criterion
  is digits and dots, so it names no inherited property and is no array index: the
  buckets keep their insertion order.
\<close>

definition add_violation ::
  "(string \<times> bucket) list \<Rightarrow> string \<Rightarrow> string \<Rightarrow> issue \<Rightarrow> (string \<times> bucket) list" where
  "add_violation vbc crit p i =
     (let vbc' = (if map_of vbc crit = None
                  then vbc @ [(crit, \<lparr>principle = ''Prinsipp '' @ p, criterion = crit,
                                        b_issues = []\<rparr>)]
                  else vbc)
      in map (\<lambda>(k, b). if k = crit then (k, b\<lparr>b_issues := b_issues b @ [to_violation i]\<rparr>)
                        else (k, b)) vbc')"

text \<open>\<^verbatim>\<open>issue.code?.match(re)\<close>: undefined when the code is absent.\<close>

definition opt_match :: "piece list \<Rightarrow> string option \<Rightarrow> string list option" where
  "opt_match ps c = (case c of None \<Rightarrow> None | Some s \<Rightarrow> js_match ps s)"

text \<open>
  The criterion the reporter files an issue under, with the digit that follows
  \<^verbatim>\<open>Prinsipp\<close>: the groups \<open>sc1\<close>, \<open>sc2\<close>, \<open>sc3\<close> of the structured pattern, else the groups
  of the alternative format.
\<close>

definition criterion_of :: "issue \<Rightarrow> (string \<times> string) option" where
  "criterion_of i =
     (case opt_match wcag_pattern (code i) of
        Some wcagMatch \<Rightarrow>
          Some (wcagMatch ! 3 @ ''.'' @ wcagMatch ! 4 @ ''.'' @ wcagMatch ! 5, wcagMatch ! 0)
      | None \<Rightarrow>
          (case opt_match alt_pattern (code i) of
             Some altMatch \<Rightarrow>
               Some (altMatch ! 0 @ ''.'' @ altMatch ! 1 @ ''.'' @ altMatch ! 2, altMatch ! 0)
           | None \<Rightarrow> None))"

definition map_step :: "(string \<times> bucket) list \<Rightarrow> issue \<Rightarrow> (string \<times> bucket) list" where
  "map_step vbc i =
     (case criterion_of i of
        Some (crit, p) \<Rightarrow> add_violation vbc crit p i
      | None \<Rightarrow> vbc)"

definition allIssues_of :: "analysis \<Rightarrow> issue list" where
  "allIssues_of a =
     (case an_pageAnalyses a of
        Some pages \<Rightarrow> concat (map issues pages)
      | None \<Rightarrow> (case an_issues a of Some is \<Rightarrow> is | None \<Rightarrow> []))"

definition mapViolationsToWCAG :: "analysis \<Rightarrow> (string \<times> bucket) list" where
  "mapViolationsToWCAG a = foldl map_step [] (allIssues_of a)"

section \<open>ExcelReporter: the status of a criterion\<close>

definition errorCount :: "bucket \<Rightarrow> nat" where
  "errorCount b = length (filter (\<lambda>i. v_type i = Some ''error'') (b_issues b))"

definition warningCount :: "bucket \<Rightarrow> nat" where
  "warningCount b = length (filter (\<lambda>i. v_type i = Some ''warning'') (b_issues b))"

text \<open>\<^verbatim>\<open>violations.issues.reduce((sum, i) => sum + i.affectedElements, 0)\<close>, a sum of doubles.\<close>

definition totalElements :: "bucket \<Rightarrow> enat" where
  "totalElements b =
     foldl (\<lambda>sum i. double_add sum (enat (v_affectedElements i))) 0 (b_issues b)"

text \<open>
  The value written into the status cell: \<^verbatim>\<open>Ikke oppfylt\<close> is "not compliant", \<^verbatim>\<open>Advarsel\<close>
  is "warning", \<^verbatim>\<open>Oppfylt\<close> is "compliant".
\<close>

definition status_of :: "bucket \<Rightarrow> string" where
  "status_of violations =
     (if errorCount violations > 0 then ''Ikke oppfylt''
      else if warningCount violations > 0 then ''Advarsel''
      else ''Oppfylt'')"

text \<open>
  The lines of the note that quote the issues:
  \<^verbatim>\<open>issue.message.substring(0, 100)\<close> followed by \<^verbatim>\<open>...\<close> when the message is longer, for
  each issue in turn. Reading \<^verbatim>\<open>substring\<close> of an absent message throws.
\<close>

fun excerpts :: "violation list \<Rightarrow> error + string list" where
  "excerpts [] = Inr []"
| "excerpts (i # is) =
     (case v_message i of
        None \<Rightarrow> Inl TypeError
      | Some m \<Rightarrow>
          (case excerpts is of
             Inl e \<Rightarrow> Inl e
           | Inr lines \<Rightarrow> Inr ((take 100 m @ (if length m > 100 then ''...'' else [])) # lines)))"

text \<open>
  A data row of the checklist: the text of column C, the value of the status cell and the
  quoted lines of its note (fonts, fills, the bullets and the fixed lines of the note are
  left out). \<^verbatim>\<open>/^(\d+\.\d+\.\d+)/\<close> is the alternative pattern anchored at the start; its
  group is the whole match. The note quotes \<^verbatim>\<open>violations.issues.slice(0, 3)\<close>; when that
  throws, the exception leaves \<^verbatim>\<open>_updateWorksheet\<close> and no report is made.
\<close>

record row =
  criterionText :: string
  status :: string
  note_lines :: "string list"

definition updateRow :: "(string \<times> bucket) list \<Rightarrow> row \<Rightarrow> error + row" where
  "updateRow vbc r =
     (case match_here alt_pattern (criterionText r) of
        None \<Rightarrow> Inr r
      | Some (crit, gs) \<Rightarrow>
          (case map_of vbc crit of
             None \<Rightarrow> Inr r
           | Some violations \<Rightarrow>
               (case excerpts (take 3 (b_issues violations)) of
                  Inl e \<Rightarrow> Inl e
                | Inr lines \<Rightarrow> Inr (r\<lparr>status := status_of violations, note_lines := lines\<rparr>))))"



section \<open>The Markdown report: mapping issues to success criteria\<close>

record md_violation =
  md_message :: "string option"
  md_type :: "string option"
  md_selector :: "string option"
  md_count :: nat
  md_context :: "string option"

definition md_violation_of :: "issue \<Rightarrow> md_violation" where
  "md_violation_of i =
     \<lparr>md_message = message i, md_type = type i, md_selector = selector i,
      md_count = affected_or_1 i, md_context = context' i\<rparr>"

definition md_add ::
  "(string \<times> md_violation list) list \<Rightarrow> string \<Rightarrow> issue \<Rightarrow> (string \<times> md_violation list) list"
  where
  "md_add vbc criteria i =
     (let vbc' = (if map_of vbc criteria = None then vbc @ [(criteria, [])] else vbc)
      in map (\<lambda>(k, vs). if k = criteria then (k, vs @ [md_violation_of i]) else (k, vs)) vbc')"

text \<open>
  \<^verbatim>\<open>issue.code.match(re)\<close> has no \<^verbatim>\<open>?.\<close>: an absent code throws. The criterion is put
  together from the groups \<open>major\<close>, \<open>minor\<close> and \<open>sc3\<close>.
\<close>

definition md_step ::
  "(string \<times> md_violation list) list \<Rightarrow> issue \<Rightarrow> error + (string \<times> md_violation list) list"
  where
  "md_step vbc i =
     (case code i of
        None \<Rightarrow> Inl TypeError
      | Some c \<Rightarrow>
          (case js_match md_pattern c of
             Some match \<Rightarrow> Inr (md_add vbc (match ! 0 @ ''.'' @ match ! 1 @ ''.'' @ match ! 4) i)
           | None \<Rightarrow> Inr vbc))"

fun md_issues ::
  "(string \<times> md_violation list) list \<Rightarrow> issue list \<Rightarrow>
   error + (string \<times> md_violation list) list" where
  "md_issues vbc [] = Inr vbc"
| "md_issues vbc (i # is) =
     (case md_step vbc i of Inl e \<Rightarrow> Inl e | Inr vbc' \<Rightarrow> md_issues vbc' is)"

fun md_pages ::
  "(string \<times> md_violation list) list \<Rightarrow> page list \<Rightarrow>
   error + (string \<times> md_violation list) list" where
  "md_pages vbc [] = Inr vbc"
| "md_pages vbc (p # ps) =
     (case md_issues vbc (issues p) of Inl e \<Rightarrow> Inl e | Inr vbc' \<Rightarrow> md_pages vbc' ps)"

text \<open>Iterating over an absent \<^verbatim>\<open>pageAnalyses\<close> throws.\<close>

definition mapViolationsToWCAG_md :: "analysis \<Rightarrow> error + (string \<times> md_violation list) list" where
  "mapViolationsToWCAG_md a =
     (case an_pageAnalyses a of
        None \<Rightarrow> Inl TypeError
      | Some pages \<Rightarrow> md_pages [] pages)"

section \<open>Notions used in the statements\<close>

text \<open>
  The issues of a list that the grouping files under a key, in their order; the type of an
  issue in lower case; the pair of code and type; an issue that has a code and a type
  whose type holds no underscore.
\<close>

definition merged :: "issue list \<Rightarrow> string \<Rightarrow> issue list" where
  "merged raw k = filter (\<lambda>i. issue_key i = k) raw"

definition lowered_type :: "issue \<Rightarrow> string option" where
  "lowered_type i = map_option toLowerCase (type i)"

definition code_type :: "issue \<Rightarrow> string option \<times> string option" where
  "code_type i = (code i, type i)"

definition plain_typed :: "issue \<Rightarrow> bool" where
  "plain_typed i =
     (case (code i, type i) of
        (Some c, Some t) \<Rightarrow> CHR ''_'' \<notin> set t
      | _ \<Rightarrow> False)"

text \<open>
  The pages that the analysis of a URL adds to the result (one or none), and the number of
  distinct keys among the raw issues of a page that was analysed.
\<close>

definition analyzed :: "(string \<Rightarrow> string + pa11y_result) \<Rightarrow> string \<Rightarrow> page list" where
  "analyzed pa11y u = (case analyzePage pa11y u of Inl e \<Rightarrow> [] | Inr p \<Rightarrow> [p])"

definition page_keys :: "(string \<Rightarrow> string + pa11y_result) \<Rightarrow> string \<Rightarrow> nat" where
  "page_keys pa11y u =
     (case pa11y u of
        Inl msg \<Rightarrow> 0
      | Inr results \<Rightarrow>
          (case groupIssuesByType (pa11y_issues results) of
             Inl e \<Rightarrow> 0
           | Inr groupedIssues \<Rightarrow> card (issue_key ` set (pa11y_issues results))))"

text \<open>
  The criterion the reporter files an issue under, the issues of a list filed under a
  criterion, and the three counts the worksheet derives from a bucket: errors, warnings,
  affected elements.
\<close>

definition criterion_id :: "issue \<Rightarrow> string option" where
  "criterion_id i = map_option fst (criterion_of i)"

definition filed :: "issue list \<Rightarrow> string \<Rightarrow> issue list" where
  "filed raw c = filter (\<lambda>i. criterion_id i = Some c) raw"

definition bucket_counts :: "(string \<times> bucket) list \<Rightarrow> string \<Rightarrow> (nat \<times> nat \<times> enat) option" where
  "bucket_counts vbc c =
     map_option (\<lambda>b. (errorCount b, warningCount b, totalElements b)) (map_of vbc c)"

text \<open>
  An analysis made of pages, an analysis made of the issues of one page, and a page with
  given issues.
\<close>

definition pages_analysis :: "page list \<Rightarrow> analysis" where
  "pages_analysis pages = \<lparr>an_pageAnalyses = Some pages, an_issues = None\<rparr>"

definition issues_analysis :: "issue list \<Rightarrow> analysis" where
  "issues_analysis raw = \<lparr>an_pageAnalyses = None, an_issues = Some raw\<rparr>"

definition page_of :: "string \<Rightarrow> issue list \<Rightarrow> page" where
  "page_of u raw = \<lparr>url = u, pageTitle = [], issues = raw, page_totalIssues = length raw\<rparr>"

text \<open>
  The text a pattern matches when its groups capture the given strings, and the groups a
  pattern can capture: one digit for \<^verbatim>\<open>(\d)\<close>, one digit or more for \<^verbatim>\<open>(\d+)\<close>.
\<close>

fun instance_of :: "piece list \<Rightarrow> string list \<Rightarrow> string" where
  "instance_of [] gs = []"
| "instance_of (Lit l # ps) gs = l @ instance_of ps gs"
| "instance_of (p # ps) [] = []"
| "instance_of (p # ps) (g # gs) = g @ instance_of ps gs"

fun groups_ok :: "piece list \<Rightarrow> string list \<Rightarrow> bool" where
  "groups_ok [] gs = (gs = [])"
| "groups_ok (Lit l # ps) gs = groups_ok ps gs"
| "groups_ok (p # ps) [] = False"
| "groups_ok (Digit # ps) (g # gs) = (length g = 1 \<and> list_all is_digit g \<and> groups_ok ps gs)"
| "groups_ok (Digits # ps) (g # gs) = (g \<noteq> [] \<and> list_all is_digit g \<and> groups_ok ps gs)"

text \<open>
  The sum of a list of counts as the reporter adds them, in doubles, and the counts of
  errors and warnings of a bucket alone.
\<close>

definition double_sum :: "nat list \<Rightarrow> enat" where
  "double_sum ns = foldl (\<lambda>sum n. double_add sum (enat n)) 0 ns"


text \<open>
  The entries that the grouping of a page returns, none for a page whose analysis failed.
\<close>

definition page_entries :: "(string \<Rightarrow> string + pa11y_result) \<Rightarrow> string \<Rightarrow> issue list" where
  "page_entries pa11y u =
     (case pa11y u of
        Inl msg \<Rightarrow> []
      | Inr results \<Rightarrow>
          (case groupIssuesByType (pa11y_issues results) of
             Inl e \<Rightarrow> []
           | Inr groupedIssues \<Rightarrow> groupedIssues))"

section \<open>Example inputs\<close>

definition mk_issue :: "string \<Rightarrow> string \<Rightarrow> string \<Rightarrow> string \<Rightarrow> issue" where
  "mk_issue c t m s =
     \<lparr>code = Some c, type = Some t, typeCode = None, message = Some m, context' = None,
      selector = Some s, runner = None, elements = None, affectedElements = None\<rparr>"

definition scenario1 :: "issue list" where
  "scenario1 =
     [mk_issue ''WCAG2AA.Principle1.Guideline1_4.1_4_3.G18.Fail'' ''error'' ''Low contrast'' ''p.x'']"

definition scenario2 :: "issue list" where
  "scenario2 =
     [\<lparr>code = Some ''2.4.2'', type = Some ''warning'', typeCode = None,
       message = Some ''Title missing'', context' = None, selector = None, runner = None,
       elements = None, affectedElements = None\<rparr>]"

definition scenario4 :: "issue list" where
  "scenario4 =
     [mk_issue ''WCAG2AA.Principle1.Guideline1_4.1_4_3.G18.Fail'' ''error'' ''Low contrast'' ''p.x'',
      mk_issue ''WCAG2AA.Principle1.Guideline1_4.1_4_3.G18.Fail'' ''error'' ''Low contrast'' ''p.y'']"

definition scenario4_grouped :: "issue list" where
  "scenario4_grouped =
     [\<lparr>code = Some ''WCAG2AA.Principle1.Guideline1_4.1_4_3.G18.Fail'', type = Some ''error'',
       typeCode = None, message = Some ''Low contrast (Affects 2 elements)'', context' = None,
       selector = Some ''p.x'', runner = None,
       elements = Some [(Some ''p.x'', None), (Some ''p.y'', None)],
       affectedElements = Some 2\<rparr>]"

definition guideline_mismatch :: issue where
  "guideline_mismatch =
     mk_issue ''WCAG2AA.Principle1.Guideline1_4.2_5_3.G18.Fail'' ''error'' ''Low contrast'' ''p.x''"

definition no_code :: issue where
  "no_code =
     \<lparr>code = None, type = None, typeCode = None, message = Some ''x'', context' = None,
      selector = None, runner = None, elements = None, affectedElements = None\<rparr>"

definition colliding :: "issue list" where
  "colliding = [mk_issue ''a_b'' ''c'' ''first'' ''p'', mk_issue ''a'' ''b_c'' ''second'' ''q'']"

definition scanner :: "issue list \<Rightarrow> string \<Rightarrow> string + pa11y_result" where
  "scanner raw u = Inr \<lparr>pa11y_pageTitle = None, pa11y_issues = raw\<rparr>"

definition site :: "string \<Rightarrow> string + pa11y_result" where
  "site u =
     (if u = ''a'' then Inr \<lparr>pa11y_pageTitle = Some ''A'', pa11y_issues = scenario4\<rparr>
      else if u = ''b'' then Inl ''timeout''
      else Inr \<lparr>pa11y_pageTitle = None, pa11y_issues = scenario2 @ scenario1 @ scenario2\<rparr>)"




definition proto_pair :: "issue list" where
  "proto_pair = [mk_issue ''_'' ''proto__'' ''m'' ''a'', mk_issue ''_'' ''proto__'' ''m'' ''b'']"






section \<open>What a match says about the string\<close>

lemma first_some_Some: "first_some xs = Some y \<Longrightarrow> Some y \<in> set xs"
  by (induction xs rule: first_some.induct) auto

lemma take_digits:
  "n \<le> length (takeWhile is_digit s) \<Longrightarrow> list_all is_digit (take n s)"
proof -
  assume n: "n \<le> length (takeWhile is_digit s)"
  have "take n s = take n (takeWhile is_digit s @ dropWhile is_digit s)"
    by simp
  also have "\<dots> = take n (takeWhile is_digit s)"
    using n by (simp del: takeWhile_dropWhile_id)
  finally have "set (take n s) \<subseteq> set (takeWhile is_digit s)"
    by (simp add: set_take_subset)
  then show ?thesis
    by (auto simp: list_all_iff dest: set_takeWhileD)
qed

lemma match_here_sound:
  "match_here ps s = Some (m, gs) \<Longrightarrow>
     groups_ok ps gs \<and> m = instance_of ps gs \<and> take (length m) s = m"
proof (induction ps arbitrary: s m gs)
  case Nil
  then show ?case by simp
next
  case (Cons p ps)
  show ?case
  proof (cases p)
    case (Lit l)
    with Cons.prems obtain m' where l: "take (length l) s = l"
      and r: "match_here ps (drop (length l) s) = Some (m', gs)" and m: "m = l @ m'"
      by (auto split: if_splits)
    from Cons.IH [OF r] have "groups_ok ps gs" "m' = instance_of ps gs"
      "take (length m') (drop (length l) s) = m'"
      by blast+
    moreover have "take (length l + length m') s = take (length l) s @ take (length m') (drop (length l) s)"
      by (simp add: take_add)
    ultimately show ?thesis
      using Lit l m by simp
  next
    case Digit
    with Cons.prems obtain c cs m' gs' where s: "s = c # cs" and d: "is_digit c"
      and r: "match_here ps cs = Some (m', gs')" and m: "m = c # m'" "gs = [c] # gs'"
      by (auto split: list.splits if_splits)
    from Cons.IH [OF r] have ih: "groups_ok ps gs'" "m' = instance_of ps gs'"
      "take (length m') cs = m'"
      by blast+
    show ?thesis
      using Digit s d m ih(1) ih(2) [symmetric] ih(3) by simp
  next
    case Digits
    let ?k = "length (takeWhile is_digit s)"
    from Cons.prems Digits have "Some (m, gs) \<in>
        set (map (\<lambda>n. map_option (\<lambda>(m, gs). (take n s @ m, take n s # gs))
                    (match_here ps (drop n s))) (rev [1..<Suc ?k]))"
      using first_some_Some by fastforce
    then have "\<exists>n \<in> set (rev [1..<Suc ?k]). Some (m, gs) =
        map_option (\<lambda>(m, gs). (take n s @ m, take n s # gs)) (match_here ps (drop n s))"
      by (simp only: set_map image_iff)
    then obtain n where nk: "n \<in> set (rev [1..<Suc ?k])"
      and e: "map_option (\<lambda>(m, gs). (take n s @ m, take n s # gs)) (match_here ps (drop n s)) =
              Some (m, gs)"
      by metis
    from nk have n: "1 \<le> n" "n \<le> ?k"
      by auto
    from e obtain m' gs' where r: "match_here ps (drop n s) = Some (m', gs')"
      and m: "m = take n s @ m'" "gs = take n s # gs'"
      by (cases "match_here ps (drop n s)") auto
    have "?k \<le> length s"
      by (rule length_takeWhile_le)
    then have len: "length (take n s) = n"
      using n by simp
    from Cons.IH [OF r] have ih: "groups_ok ps gs'" "m' = instance_of ps gs'"
      "take (length m') (drop n s) = m'"
      by blast+
    have "take (n + length m') s = take n s @ take (length m') (drop n s)"
      by (simp add: take_add)
    then have "take (length m) s = m"
      using m ih(3) len by simp
    moreover have "take n s \<noteq> []"
      using len n by auto
    ultimately show ?thesis
      using Digits m ih take_digits [OF n(2)] by simp
  qed
qed

lemma js_match_sound:
  "js_match ps s = Some gs \<Longrightarrow>
     groups_ok ps gs \<and> (\<exists>pre rest. s = pre @ instance_of ps gs @ rest)"
proof (induction s)
  case Nil
  then obtain m where "match_here ps [] = Some (m, gs)"
    by auto
  from match_here_sound [OF this] show ?case
    by auto
next
  case (Cons c cs)
  show ?case
  proof (cases "match_here ps (c # cs)")
    case None
    with Cons.prems have "js_match ps cs = Some gs"
      by simp
    from Cons.IH [OF this] obtain pre rest where
      "groups_ok ps gs" "cs = pre @ instance_of ps gs @ rest"
      by blast
    then have "groups_ok ps gs" "c # cs = (c # pre) @ instance_of ps gs @ rest"
      by simp_all
    then show ?thesis
      by blast
  next
    case (Some a)
    with Cons.prems obtain m where h: "match_here ps (c # cs) = Some (m, gs)"
      by (cases a) auto
    from match_here_sound [OF h] have g: "groups_ok ps gs" and i: "m = instance_of ps gs"
      and t: "take (length m) (c # cs) = m"
      by blast+
    have "c # cs = [] @ m @ drop (length m) (c # cs)"
      using t by (metis append_Nil append_take_drop_id)
    then show ?thesis
      using g i by blast
  qed
qed

lemma groups_ok_wcag:
  "groups_ok wcag_pattern gs \<Longrightarrow>
     \<exists>p g1 g2 sc1 sc2 sc3. gs = [p, g1, g2, sc1, sc2, sc3] \<and> length p = 1"
  by (auto simp: wcag_pattern_def elim!: groups_ok.elims)

lemma groups_ok_alt:
  "groups_ok alt_pattern gs \<Longrightarrow> \<exists>a b c. gs = [a, b, c]"
  by (auto simp: alt_pattern_def elim!: groups_ok.elims)

lemma groups_ok_md:
  "groups_ok md_pattern gs \<Longrightarrow> \<exists>g1 g2 sc1 sc2 sc3. gs = [g1, g2, sc1, sc2, sc3]"
  by (auto simp: md_pattern_def elim!: groups_ok.elims)

text \<open>Conversely, a string that holds an instance of a pattern has a match.\<close>

lemma first_some_exists:
  "Some y \<in> set xs \<Longrightarrow> \<exists>z. first_some xs = Some z"
  by (induction xs rule: first_some.induct) auto

lemma takeWhile_digits_prefix:
  "list_all is_digit g \<Longrightarrow> length g \<le> length (takeWhile is_digit (g @ s))"
  by (induction g) simp_all

lemma match_here_complete:
  "groups_ok ps gs \<Longrightarrow> \<exists>r. match_here ps (instance_of ps gs @ rest) = Some r"
proof (induction ps arbitrary: gs)
  case Nil
  then show ?case by simp
next
  case (Cons p ps)
  show ?case
  proof (cases p)
    case (Lit l)
    with Cons.prems have "groups_ok ps gs"
      by simp
    from Cons.IH [OF this] show ?thesis
      using Lit by auto
  next
    case Digit
    with Cons.prems obtain c gs' where g: "gs = [c] # gs'" "is_digit c" "groups_ok ps gs'"
      by (cases gs) (auto simp: length_Suc_conv)
    from Cons.IH [OF g(3)] show ?thesis
      using Digit g by auto
  next
    case Digits
    with Cons.prems obtain g gs' where g: "gs = g # gs'" "g \<noteq> []" "list_all is_digit g"
      "groups_ok ps gs'"
      by (cases gs) auto
    let ?s = "instance_of (p # ps) gs @ rest"
    let ?f = "\<lambda>n. map_option (\<lambda>(m, gs). (take n ?s @ m, take n ?s # gs)) (match_here ps (drop n ?s))"
    have s: "?s = g @ instance_of ps gs' @ rest"
      using Digits g by simp
    from Cons.IH [OF g(4)] obtain r where r: "match_here ps (instance_of ps gs' @ rest) = Some r"
      by blast
    have "length g \<le> length (takeWhile is_digit ?s)"
      unfolding s using g(3) by (rule takeWhile_digits_prefix)
    moreover have "1 \<le> length g"
      using g(2) by (cases g) simp_all
    ultimately have n: "length g \<in> set (rev [1..<Suc (length (takeWhile is_digit ?s))])"
      by auto
    have f: "?f (length g) = Some (g @ fst r, g # snd r)"
      unfolding s using r by (cases r) simp
    have "?f (length g) \<in> ?f ` set (rev [1..<Suc (length (takeWhile is_digit ?s))])"
      using n by (rule imageI)
    then have "Some (g @ fst r, g # snd r) \<in> set (map ?f (rev [1..<Suc (length (takeWhile is_digit ?s))]))"
      unfolding f by (simp only: set_map)
    from first_some_exists [OF this] show ?thesis
      using Digits by simp
  qed
qed

lemma js_match_complete:
  "groups_ok ps gs \<Longrightarrow> \<exists>r. js_match ps (pre @ instance_of ps gs @ rest) = Some r"
proof (induction pre)
  case Nil
  from match_here_complete [OF Nil, of rest] obtain m gs' where
    m: "match_here ps (instance_of ps gs @ rest) = Some (m, gs')"
    by fastforce
  show ?case
  proof (cases "instance_of ps gs @ rest")
    case Nil
    with m show ?thesis by simp
  next
    case (Cons c cs)
    with m show ?thesis by simp
  qed
next
  case (Cons c pre)
  then show ?case
    by (cases "match_here ps (c # pre @ instance_of ps gs @ rest)") auto
qed

section \<open>Association lists updated in place\<close>

lemma map_of_update_key:
  "map_of (map (\<lambda>(k, v). if k = key then (k, f v) else (k, v)) xs) k' =
     (if k' = key then map_option f (map_of xs k') else map_of xs k')"
  by (induction xs) auto

lemma map_fst_update_key:
  "map fst (map (\<lambda>(k, v). if k = key then (k, f v) else (k, v)) xs) = map fst xs"
  by (induction xs) auto

lemma map_of_snoc:
  "map_of (xs @ [(k, v)]) k' =
     (case map_of xs k' of Some v' \<Rightarrow> Some v' | None \<Rightarrow> if k' = k then Some v else None)"
  by (induction xs) auto

lemma map_of_None_fst: "(map_of xs k = None) = (k \<notin> set (map fst xs))"
  by (simp add: map_of_eq_None_iff)

section \<open>Grouping: the closed form\<close>

lemma group_step_map_of:
  assumes "group_step grouped i = Inr grouped'"
  shows "map_of grouped' k =
     (if k = issue_key i
      then Some (case map_of grouped k of
                   None \<Rightarrow> (new_group i)\<lparr>g_elements := [(selector i, context' i)]\<rparr>
                 | Some g \<Rightarrow> g\<lparr>g_elements := g_elements g @ [(selector i, context' i)]\<rparr>)
      else map_of grouped k)"
  using assms
  by (auto simp: group_step_def Let_def map_of_update_key map_of_snoc new_group_def
           simp del: map_of_append split: if_splits option.splits)

lemma group_step_keys:
  assumes "group_step grouped i = Inr grouped'"
  shows "map fst grouped' =
     (if issue_key i \<in> set (map fst grouped) then map fst grouped
      else map fst grouped @ [issue_key i])"
  using assms
  by (auto simp: group_step_def Let_def map_fst_update_key map_of_update_key map_of_snoc map_of_None_fst
           simp del: map_of_append map_of_eq_None_iff split: if_splits option.splits)

lemma group_step_total:
  "issue_key i \<notin> set Object_prototype_keys \<Longrightarrow> \<exists>grouped'. group_step grouped i = Inr grouped'"
  by (auto simp: group_step_def Let_def map_of_snoc simp del: map_of_append split: option.splits)

lemma group_step_throws:
  "issue_key i \<in> set Object_prototype_keys \<Longrightarrow> issue_key i \<notin> set (map fst grouped) \<Longrightarrow>
   group_step grouped i = Inl TypeError"
  by (auto simp: group_step_def Let_def map_of_None_fst simp del: map_of_eq_None_iff)

text \<open>
  The loop, key by key: an entry keeps the fields of the first issue of its key and lists
  one element for every issue of the key.
\<close>

lemma group_loop_map_of:
  assumes "group_loop grouped is = Inr grouped'"
  shows "map_of grouped' k =
     (case map_of grouped k of
        Some g \<Rightarrow>
          Some (g\<lparr>g_elements := g_elements g @
                   map (\<lambda>i. (selector i, context' i)) (filter (\<lambda>i. issue_key i = k) is)\<rparr>)
      | None \<Rightarrow>
          (case filter (\<lambda>i. issue_key i = k) is of
             [] \<Rightarrow> None
           | r # rest \<Rightarrow>
               Some ((new_group r)\<lparr>g_elements :=
                      map (\<lambda>i. (selector i, context' i)) (filter (\<lambda>i. issue_key i = k) is)\<rparr>)))"
  using assms
proof (induction "is" arbitrary: grouped)
  case Nil
  then show ?case by (simp split: option.splits)
next
  case (Cons i "is")
  from Cons.prems obtain g1 where s: "group_step grouped i = Inr g1" and l: "group_loop g1 is = Inr grouped'"
    by (auto split: sum.splits)
  show ?case
    unfolding Cons.IH [OF l] group_step_map_of [OF s]
    by (auto split: option.splits list.splits simp: new_group_def)
qed

lemma group_loop_keys:
  assumes "group_loop grouped is = Inr grouped'" and "distinct (map fst grouped)"
  shows "distinct (map fst grouped') \<and> set (map fst grouped') = set (map fst grouped) \<union> issue_key ` set is"
  using assms
proof (induction "is" arbitrary: grouped)
  case Nil
  then show ?case by simp
next
  case (Cons i "is")
  from Cons.prems obtain g1 where s: "group_step grouped i = Inr g1" and l: "group_loop g1 is = Inr grouped'"
    by (auto split: sum.splits)
  have d: "distinct (map fst g1)" and k: "set (map fst g1) = insert (issue_key i) (set (map fst grouped))"
    using group_step_keys [OF s] Cons.prems(2) by (auto split: if_splits)
  show ?case using Cons.IH [OF l d] k by auto
qed

lemma group_loop_total:
  "\<forall>i \<in> set is. issue_key i \<notin> set Object_prototype_keys \<Longrightarrow> \<exists>grouped'. group_loop grouped is = Inr grouped'"
proof (induction "is" arbitrary: grouped)
  case Nil
  then show ?case by simp
next
  case (Cons i "is")
  then obtain g1 where s: "group_step grouped i = Inr g1"
    using group_step_total [of i grouped] by auto
  then show ?case using Cons by simp
qed

lemma issue_key_finish_group:
  "issue_key (finish_group g) = js_str (g_code g) @ ''_'' @ js_str (g_type g)"
  by (simp add: issue_key_def finish_group_def)

lemma group_loop_entry:
  assumes l: "group_loop [] raw = Inr grouped" and m: "(k, g) \<in> set grouped"
  shows "\<exists>r rest. merged raw k = r # rest \<and>
           g = (new_group r)\<lparr>g_elements := map (\<lambda>i. (selector i, context' i)) (r # rest)\<rparr>"
proof -
  have "distinct (map fst grouped)"
    using group_loop_keys [OF l] by simp
  with m have "map_of grouped k = Some g"
    by simp
  then show ?thesis
    unfolding group_loop_map_of [OF l] merged_def
    by (auto split: list.splits)
qed

lemma group_loop_entry_key:
  assumes l: "group_loop [] raw = Inr grouped" and m: "(k, g) \<in> set grouped"
  shows "issue_key (finish_group g) = k"
proof -
  from group_loop_entry [OF l m] obtain r rest where
    f: "merged raw k = r # rest" and
    g: "g = (new_group r)\<lparr>g_elements := map (\<lambda>i. (selector i, context' i)) (r # rest)\<rparr>"
    by blast
  have "r \<in> set (merged raw k)"
    using f by simp
  then have "issue_key r = k"
    by (simp add: merged_def)
  then have "js_str (code r) @ ''_'' @ js_str (type r) = k"
    by (simp add: issue_key_def)
  then show ?thesis
    unfolding issue_key_finish_group g by (simp add: new_group_def)
qed

lemma groupIssuesByType_keys:
  assumes "groupIssuesByType raw = Inr out"
  shows "distinct (map issue_key out) \<and> set (map issue_key out) = issue_key ` set raw"
proof -
  from assms obtain grouped where l: "group_loop [] raw = Inr grouped"
    and out: "out = map (finish_group \<circ> snd) grouped"
    by (auto simp: groupIssuesByType_def split: sum.splits)
  have "map issue_key out = map fst grouped"
    unfolding out using group_loop_entry_key [OF l] by auto
  then show ?thesis
    using group_loop_keys [OF l] by simp
qed

lemma groupIssuesByType_entry:
  assumes "groupIssuesByType raw = Inr out" and "e \<in> set out"
  shows "\<exists>r rest. merged raw (issue_key e) = r # rest \<and>
           e = finish_group
                 ((new_group r)\<lparr>g_elements := map (\<lambda>i. (selector i, context' i)) (r # rest)\<rparr>)"
proof -
  from assms obtain grouped where l: "group_loop [] raw = Inr grouped"
    and out: "out = map (finish_group \<circ> snd) grouped"
    by (auto simp: groupIssuesByType_def split: sum.splits)
  from assms(2) out obtain k g where m: "(k, g) \<in> set grouped" and e: "e = finish_group g"
    by auto
  have "issue_key e = k"
    using group_loop_entry_key [OF l m] e by simp
  then show ?thesis
    using group_loop_entry [OF l m] e by blast
qed

text \<open>
  The grouping returns unless a key names an inherited property.
\<close>

lemma groupIssuesByType_total:
  assumes "\<forall>i \<in> set raw. issue_key i \<notin> set Object_prototype_keys"
  shows "\<exists>out. groupIssuesByType raw = Inr out"
  using group_loop_total [OF assms, of "[]"] by (auto simp: groupIssuesByType_def)

text \<open>
  No key of an issue whose type is one of the scanner's (\<^verbatim>\<open>error\<close>, \<^verbatim>\<open>warning\<close>, \<^verbatim>\<open>notice\<close>)
  names an inherited property.
\<close>

lemma suffix_not_inherited:
  assumes "t \<in> {''error'', ''warning'', ''notice''}"
  shows "c @ ''_'' @ t \<notin> set Object_prototype_keys"
proof
  assume k: "c @ ''_'' @ t \<in> set Object_prototype_keys"
  have "take 4 (rev (c @ ''_'' @ t)) \<in> {''rorr'', ''gnin'', ''ecit''}"
    using assms by auto
  moreover have "take 4 (rev n) \<notin> {''rorr'', ''gnin'', ''ecit''}" if "n \<in> set Object_prototype_keys" for n
    using that by (auto simp: Object_prototype_keys_def)
  ultimately show False
    using k by blast
qed

lemma scanner_types_group:
  assumes "\<forall>i \<in> set raw. type i \<in> {Some ''error'', Some ''warning'', Some ''notice''}"
  shows "\<forall>i \<in> set raw. issue_key i \<notin> set Object_prototype_keys"
proof
  fix i assume "i \<in> set raw"
  with assms have "js_str (type i) \<in> {''error'', ''warning'', ''notice''}"
    by (auto simp: js_str_def)
  then show "issue_key i \<notin> set Object_prototype_keys"
    unfolding issue_key_def by (rule suffix_not_inherited)
qed

lemma groupIssuesByType_length:
  assumes "groupIssuesByType raw = Inr out"
  shows "length out = card (issue_key ` set raw)"
proof -
  have "card (set (map issue_key out)) = length (map issue_key out)"
    using groupIssuesByType_keys [OF assms] distinct_card [of "map issue_key out"] by blast
  then show ?thesis
    using groupIssuesByType_keys [OF assms] by simp
qed

lemma filter_Cons_find: "filter P xs = r # rest \<Longrightarrow> find P xs = Some r"
  by (induction xs) (auto split: if_splits)

lemma affects_suffix_words:
  "0 < n \<Longrightarrow> affects_suffix n =
     '' (Affects '' @ string_of_nat n @ (if n = 1 then '' element)'' else '' elements)'')"
  by (simp add: affects_suffix_def)

section \<open>Keys and pairs of code and type\<close>

lemma takeWhile_until:
  "x \<notin> set xs \<Longrightarrow> takeWhile (\<lambda>y. y \<noteq> x) (xs @ x # ys) = xs"
  by (induction xs) auto

lemma plain_typedD:
  "plain_typed i \<Longrightarrow> \<exists>c t. code i = Some c \<and> type i = Some t \<and> CHR ''_'' \<notin> set t"
  by (cases "code i"; cases "type i") (simp_all add: plain_typed_def)

lemma key_split:
  assumes "c @ ''_'' @ t = c' @ ''_'' @ t'" and "CHR ''_'' \<notin> set t" and "CHR ''_'' \<notin> set t'"
  shows "c = c' \<and> t = t'"
proof -
  have "takeWhile (\<lambda>x. x \<noteq> CHR ''_'') (rev (c @ ''_'' @ t)) = rev t"
    using assms(2) takeWhile_until [of "CHR ''_''" "rev t" "rev c"] by simp
  moreover have "takeWhile (\<lambda>x. x \<noteq> CHR ''_'') (rev (c' @ ''_'' @ t')) = rev t'"
    using assms(3) takeWhile_until [of "CHR ''_''" "rev t'" "rev c'"] by simp
  ultimately have "t = t'"
    using assms(1) by (metis rev_rev_ident)
  then show ?thesis
    using assms(1) by simp
qed

lemma plain_key_eq:
  assumes "plain_typed x" and "plain_typed y"
  shows "(issue_key x = issue_key y) = (code_type x = code_type y)"
proof -
  from plain_typedD [OF assms(1)] obtain c t where
    x: "code x = Some c" "type x = Some t" "CHR ''_'' \<notin> set t"
    by blast
  from plain_typedD [OF assms(2)] obtain c' t' where
    y: "code y = Some c'" "type y = Some t'" "CHR ''_'' \<notin> set t'"
    by blast
  show ?thesis
    using key_split [of c t c' t'] x y
    by (auto simp: issue_key_def code_type_def js_str_def)
qed

lemma plain_keys_card:
  assumes "\<forall>i \<in> set raw. plain_typed i"
  shows "card (issue_key ` set raw) = card (code_type ` set raw)"
proof -
  let ?h = "\<lambda>(c, t). js_str c @ ''_'' @ js_str t"
  have "inj_on ?h (code_type ` set raw)"
  proof (rule inj_onI)
    fix x y assume x: "x \<in> code_type ` set raw" and y: "y \<in> code_type ` set raw" and e: "?h x = ?h y"
    from x assms obtain c t where xv: "x = (Some c, Some t)" "CHR ''_'' \<notin> set t"
      using plain_typedD by (fastforce simp: code_type_def)
    from y assms obtain c' t' where yv: "y = (Some c', Some t')" "CHR ''_'' \<notin> set t'"
      using plain_typedD by (fastforce simp: code_type_def)
    show "x = y"
      using key_split [of c t c' t'] e xv yv by (simp add: js_str_def)
  qed
  then have "card (?h ` code_type ` set raw) = card (code_type ` set raw)"
    by (rule card_image)
  moreover have "?h ` code_type ` set raw = issue_key ` set raw"
    by (auto simp: image_image code_type_def issue_key_def)
  ultimately show ?thesis
    by simp
qed

lemma distinct_map_filter_one:
  "distinct (map f xs) \<Longrightarrow> x \<in> set xs \<Longrightarrow> length (filter (\<lambda>y. f y = f x) xs) = 1"
  by (induction xs) (auto simp: filter_empty_conv image_iff)

text \<open>
  What the grouping has done whenever it returns: the result holds one entry, at one place
  of the list, for the key of a raw issue; the entry counts and lists the raw issues of
  that key, among them every issue with the same code and type. When every issue has a
  code and a type and no type holds an underscore, these are exactly the issues with that
  code and type, and the entry has that code and type.
\<close>

lemma groupIssuesByType_merges_Inr:
  assumes "groupIssuesByType raw = Inr out" and "r \<in> set raw"
  shows "length (filter (\<lambda>e. issue_key e = issue_key r) out) = 1 \<and>
         (\<forall>e \<in> set out. issue_key e = issue_key r \<longrightarrow>
            affectedElements e = Some (length (merged raw (issue_key r))) \<and>
            elements e = Some (map (\<lambda>i. (selector i, context' i)) (merged raw (issue_key r)))) \<and>
         (\<forall>x \<in> set raw. code_type x = code_type r \<longrightarrow> x \<in> set (merged raw (issue_key r))) \<and>
         ((\<forall>x \<in> set raw. plain_typed x) \<longrightarrow>
            merged raw (issue_key r) = filter (\<lambda>x. code_type x = code_type r) raw \<and>
            (\<forall>e \<in> set out. issue_key e = issue_key r \<longrightarrow> code_type e = code_type r))"
proof (intro conjI)
  have k: "distinct (map issue_key out)" "set (map issue_key out) = issue_key ` set raw"
    using groupIssuesByType_keys [OF assms(1)] by simp_all
  from k(2) assms(2) obtain e where e: "e \<in> set out" "issue_key e = issue_key r"
    by (metis (no_types, lifting) image_iff list.set_map)
  from distinct_map_filter_one [OF k(1) e(1)] e(2)
  show "length (filter (\<lambda>e. issue_key e = issue_key r) out) = 1"
    by simp
next
  show "\<forall>e \<in> set out. issue_key e = issue_key r \<longrightarrow>
            affectedElements e = Some (length (merged raw (issue_key r))) \<and>
            elements e = Some (map (\<lambda>i. (selector i, context' i)) (merged raw (issue_key r)))"
  proof (intro ballI impI)
    fix e assume "e \<in> set out" and s: "issue_key e = issue_key r"
    from groupIssuesByType_entry [OF assms(1) this(1)] obtain r' rest where
      "merged raw (issue_key e) = r' # rest"
      "e = finish_group ((new_group r')\<lparr>g_elements := map (\<lambda>i. (selector i, context' i)) (r' # rest)\<rparr>)"
      by blast
    then show "affectedElements e = Some (length (merged raw (issue_key r))) \<and>
            elements e = Some (map (\<lambda>i. (selector i, context' i)) (merged raw (issue_key r)))"
      using s by (simp add: finish_group_def)
  qed
next
  show "\<forall>x \<in> set raw. code_type x = code_type r \<longrightarrow> x \<in> set (merged raw (issue_key r))"
    by (simp add: merged_def issue_key_def code_type_def)
next
  show "(\<forall>x \<in> set raw. plain_typed x) \<longrightarrow>
            merged raw (issue_key r) = filter (\<lambda>x. code_type x = code_type r) raw \<and>
            (\<forall>e \<in> set out. issue_key e = issue_key r \<longrightarrow> code_type e = code_type r)"
  proof (intro impI conjI ballI)
    assume p: "\<forall>x \<in> set raw. plain_typed x"
    then have q: "(issue_key x = issue_key r) = (code_type x = code_type r)" if "x \<in> set raw" for x
      using plain_key_eq that assms(2) by blast
    then show "merged raw (issue_key r) = filter (\<lambda>x. code_type x = code_type r) raw"
      unfolding merged_def by (intro filter_cong) simp_all
    fix e assume "e \<in> set out" and s: "issue_key e = issue_key r"
    from groupIssuesByType_entry [OF assms(1) this(1)] obtain r' rest where
      f: "merged raw (issue_key e) = r' # rest" and
      e: "e = finish_group ((new_group r')\<lparr>g_elements := map (\<lambda>i. (selector i, context' i)) (r' # rest)\<rparr>)"
      by blast
    have "r' \<in> set (merged raw (issue_key e))"
      using f by simp
    then have "r' \<in> set raw" "issue_key r' = issue_key r"
      using s by (simp_all add: merged_def)
    then have "code_type r' = code_type r"
      using q by blast
    moreover have "code_type e = code_type r'"
      by (subst e) (simp add: code_type_def finish_group_def new_group_def)
    ultimately show "code_type e = code_type r"
      by simp
  qed
qed

section \<open>C5: issues with one code and type are merged into one entry\<close>

text \<open>
  Claim C5 asks the grouping of a page to merge the issues that share a code and a type
  into one entry that counts them. The grouping keeps its entries in an object literal and
  reads \<^verbatim>\<open>grouped[key]\<close> before it stores: for two issues with code \<^verbatim>\<open>_\<close> and type
  \<^verbatim>\<open>proto__\<close> the key is \<^verbatim>\<open>__proto__\<close>, the read finds the inherited prototype, no entry is
  stored and \<^verbatim>\<open>push\<close> throws; the page is not analysed and its issues are counted nowhere.
  Whenever the grouping returns, it has merged as the claim says
  (\<open>groupIssuesByType_merges_Inr\<close>), and it returns for every list of issues with the types
  of the scanner (\<open>scanner_types_group\<close>).
\<close>

theorem groupIssuesByType_inherited_key:
  "map code_type proto_pair = [(Some ''_'', Some ''proto__''), (Some ''_'', Some ''proto__'')] \<and>
   map issue_key proto_pair = [''__proto__'', ''__proto__''] \<and>
   groupIssuesByType proto_pair = Inl TypeError \<and>
   pageAnalyses (analyzeWebsite (scanner proto_pair) [''u'']) = [] \<and>
   totalIssues (analyzeWebsite (scanner proto_pair) [''u'']) = 0"
proof -
  have "map code_type proto_pair = [(Some ''_'', Some ''proto__''), (Some ''_'', Some ''proto__'')]"
    by code_simp
  moreover have "map issue_key proto_pair = [''__proto__'', ''__proto__'']"
    by code_simp
  moreover have "groupIssuesByType proto_pair = Inl TypeError"
    by code_simp
  moreover have "pageAnalyses (analyzeWebsite (scanner proto_pair) [''u'']) = []"
    by code_simp
  moreover have "totalIssues (analyzeWebsite (scanner proto_pair) [''u'']) = 0"
    by code_simp
  ultimately show ?thesis
    by blast
qed

section \<open>C10: the message of a grouped issue carries the number of elements\<close>

text \<open>
  Claim C10. The message of every entry that the grouping of a page produces is the message
  of the first raw issue of its key followed by \<^verbatim>\<open> (Affects N elements)\<close>, or by
  \<^verbatim>\<open> (Affects 1 element)\<close> when one issue was merged, where \<open>N\<close> is the number of merged
  issues; it is never the raw message itself, and both reporters copy it unchanged.
\<close>

theorem groupIssuesByType_message:
  assumes "groupIssuesByType raw = Inr out" and "e \<in> set out"
  shows "\<exists>r n. find (\<lambda>i. issue_key i = issue_key e) raw = Some r \<and>
           n = length (merged raw (issue_key e)) \<and> 0 < n \<and>
           affectedElements e = Some n \<and>
           message e = Some (js_str (message r) @ '' (Affects '' @ string_of_nat n @
                               (if n = 1 then '' element)'' else '' elements)'')) \<and>
           message e \<noteq> message r \<and>
           v_message (to_violation e) = message e \<and>
           md_message (md_violation_of e) = message e"
proof -
  from groupIssuesByType_entry [OF assms] obtain r rest where
    f: "merged raw (issue_key e) = r # rest" and
    e: "e = finish_group ((new_group r)\<lparr>g_elements := map (\<lambda>i. (selector i, context' i)) (r # rest)\<rparr>)"
    by blast
  let ?n = "length (merged raw (issue_key e))"
  have n: "0 < ?n" "?n = Suc (length rest)"
    using f by simp_all
  have 1: "find (\<lambda>i. issue_key i = issue_key e) raw = Some r"
    using f filter_Cons_find unfolding merged_def by fast
  have 2: "affectedElements e = Some ?n"
    unfolding n(2) by (subst e) (simp add: finish_group_def)
  have 3: "message e = Some (js_str (message r) @ affects_suffix ?n)"
    unfolding n(2) by (subst e) (simp add: finish_group_def new_group_def)
  have 4: "message e \<noteq> message r"
    unfolding 3 by (cases "message r") (simp_all add: js_str_def affects_suffix_def)
  show ?thesis
    using 1 2 3 4 n(1) affects_suffix_words [OF n(1)]
    by (auto simp: to_violation_def md_violation_of_def)
qed

theorem groupIssuesByType_message_witness:
  "groupIssuesByType scenario4 = Inr scenario4_grouped \<and>
   hd scenario4_grouped \<in> set scenario4_grouped \<and>
   message (hd scenario4) = Some ''Low contrast'' \<and>
   message (hd scenario4_grouped) = Some ''Low contrast (Affects 2 elements)''"
proof -
  have h: "groupIssuesByType scenario4 = Inr scenario4_grouped"
    by code_simp
  have g: "hd scenario4_grouped \<in> set scenario4_grouped"
    by (simp add: scenario4_grouped_def)
  have f: "find (\<lambda>i. issue_key i = issue_key (hd scenario4_grouped)) scenario4 = Some (hd scenario4)"
    by code_simp
  have n: "length (merged scenario4 (issue_key (hd scenario4_grouped))) = 2"
    by code_simp
  have m: "message (hd scenario4) = Some ''Low contrast''"
    by (simp add: scenario4_def mk_issue_def)
  have d: "string_of_nat 2 = ''2''"
    by code_simp
  from groupIssuesByType_message [OF h g] f n m d
  have "message (hd scenario4_grouped) = Some ''Low contrast (Affects 2 elements)''"
    by (auto simp: js_str_def)
  then show ?thesis
    using h g m by blast
qed

section \<open>The tally by impact: the closed form\<close>



lemma lowered_type_exact:
  "type i = Some ''error'' \<Longrightarrow> lowered_type i = Some ''error''"
  "type i = Some ''warning'' \<Longrightarrow> lowered_type i = Some ''warning''"
  "type i = None \<Longrightarrow> lowered_type i = None"
  by (simp_all add: lowered_type_def toLowerCase_def lower_char_def)


section \<open>The analysis of a website: the closed form\<close>

lemma analyze_loop_closed:
  "analyze_loop pa11y us (pages, failed, allIssues) =
     (pages @ concat (map (analyzed pa11y) us),
      failed @ concat (map (\<lambda>u. case analyzePage pa11y u of Inl e \<Rightarrow> [(u, e)] | Inr p \<Rightarrow> []) us),
      allIssues @ concat (map issues (concat (map (analyzed pa11y) us))))"
  by (induction us arbitrary: pages failed allIssues) (auto simp: analyzed_def split: sum.splits)

lemma analyzeWebsite_pages:
  "pageAnalyses (analyzeWebsite pa11y urls) = concat (map (analyzed pa11y) (uniqueUrls urls))"
  by (simp add: analyzeWebsite_def analyze_loop_closed)


lemma analyzeWebsite_total:
  "totalIssues (analyzeWebsite pa11y urls) =
     length (concat (map issues (pageAnalyses (analyzeWebsite pa11y urls))))"
  by (simp add: analyzeWebsite_def analyze_loop_closed)

lemma length_issues_analyzed:
  "length (concat (map issues (analyzed pa11y u))) = page_keys pa11y u"
  by (auto simp: analyzed_def analyzePage_def page_keys_def groupIssuesByType_length split: sum.splits)

lemma length_concat_analyzed:
  "length (concat (map issues (concat (map (analyzed pa11y) us)))) = (\<Sum>u\<leftarrow>us. page_keys pa11y u)"
  by (induction us) (simp_all add: length_issues_analyzed)




section \<open>C6: the tally by impact\<close>



section \<open>C9: the total number of issues of a website\<close>

text \<open>
  \<open>totalIssues\<close> is the sum, over the distinct URLs in order, of the number of distinct keys
  \<^verbatim>\<open>`${code}_${type}`\<close> among the raw issues of the page, a page whose analysis failed
  counting 0: it counts grouped entries, not raw issues. The number of distinct keys of a
  page is its number of distinct pairs of code and type whenever every issue has a code
  and a type and no type holds an underscore.
\<close>

lemma totalIssues_sum_of_keys:
  "totalIssues (analyzeWebsite pa11y urls) = (\<Sum>u\<leftarrow>uniqueUrls urls. page_keys pa11y u) \<and>
   (\<forall>raw. (\<forall>i \<in> set raw. plain_typed i) \<longrightarrow>
       card (issue_key ` set raw) = card (code_type ` set raw))"
  using plain_keys_card
  by (simp add: analyzeWebsite_total analyzeWebsite_pages length_concat_analyzed)

lemma totalIssues_site:
  "uniqueUrls [''a'', ''b'', ''c'', ''a''] = [''a'', ''b'', ''c''] \<and>
   totalIssues (analyzeWebsite site [''a'', ''b'', ''c'', ''a'']) = 3"
proof -
  have u: "uniqueUrls [''a'', ''b'', ''c'', ''a''] = [''a'', ''b'', ''c'']"
    by code_simp
  have k: "page_keys site ''a'' = 1" "page_keys site ''b'' = 0" "page_keys site ''c'' = 2"
    by code_simp+
  from totalIssues_sum_of_keys [of site "[''a'', ''b'', ''c'', ''a'']"] u k
  have "totalIssues (analyzeWebsite site [''a'', ''b'', ''c'', ''a'']) = 3"
    by simp
  then show ?thesis
    using u by blast
qed

text \<open>
  Claim C9 asks \<open>totalIssues\<close> to count the distinct pairs of code and type of each page. The
  key joins code and type with an underscore, which either may hold: the issues with the
  codes \<^verbatim>\<open>a_b\<close> and \<^verbatim>\<open>a\<close> and the types \<^verbatim>\<open>c\<close> and \<^verbatim>\<open>b_c\<close> are two pairs with the one key
  \<^verbatim>\<open>a_b_c\<close>, they are merged into one entry, and \<open>totalIssues\<close> is 1 where the claim says 2.
\<close>

theorem totalIssues_key_collision:
  "map code_type colliding = [(Some ''a_b'', Some ''c''), (Some ''a'', Some ''b_c'')] \<and>
   card (code_type ` set colliding) = 2 \<and>
   map issue_key colliding = [''a_b_c'', ''a_b_c''] \<and>
   map affectedElements (page_entries (scanner colliding) ''u'') = [Some 2] \<and>
   totalIssues (analyzeWebsite (scanner colliding) [''u'']) = 1"
proof -
  have "map code_type colliding = [(Some ''a_b'', Some ''c''), (Some ''a'', Some ''b_c'')]"
    by code_simp
  moreover have "card (code_type ` set colliding) = 2"
    by code_simp
  moreover have "map issue_key colliding = [''a_b_c'', ''a_b_c'']"
    by code_simp
  moreover have "map affectedElements (page_entries (scanner colliding) ''u'') = [Some 2]"
    by code_simp
  moreover have "totalIssues (analyzeWebsite (scanner colliding) [''u'']) = 1"
    by code_simp
  ultimately show ?thesis
    by blast
qed

section \<open>The reporter: the criterion of an issue\<close>

text \<open>
  When the structured pattern matches, the criterion is the last three numbers of the
  matched text; when only the alternative format matches, it is the matched triple; an
  issue without a code has no criterion and leaves the buckets as they are.
\<close>

lemma reporter_structured:
  assumes "opt_match wcag_pattern (code i) = Some gs"
  shows "\<exists>pre p g1 g2 sc1 sc2 sc3 rest.
           code i = Some (pre @ ''Principle'' @ p @ ''.Guideline'' @ g1 @ ''_'' @ g2 @ ''.'' @
                          sc1 @ ''_'' @ sc2 @ ''_'' @ sc3 @ rest) \<and>
           sc1 \<noteq> [] \<and> list_all is_digit sc1 \<and> sc2 \<noteq> [] \<and> list_all is_digit sc2 \<and>
           sc3 \<noteq> [] \<and> list_all is_digit sc3 \<and>
           criterion_id i = Some (sc1 @ ''.'' @ sc2 @ ''.'' @ sc3)"
proof -
  from assms obtain c where c: "code i = Some c" and m: "js_match wcag_pattern c = Some gs"
    by (auto simp: opt_match_def split: option.splits)
  from js_match_sound [OF m] obtain pre rest where
    g: "groups_ok wcag_pattern gs" and s: "c = pre @ instance_of wcag_pattern gs @ rest"
    by blast
  from groups_ok_wcag [OF g] obtain p g1 g2 sc1 sc2 sc3 where
    gs: "gs = [p, g1, g2, sc1, sc2, sc3]"
    by blast
  have "criterion_id i = Some (sc1 @ ''.'' @ sc2 @ ''.'' @ sc3)"
    using assms gs by (simp add: criterion_id_def criterion_of_def)
  moreover have "c = pre @ ''Principle'' @ p @ ''.Guideline'' @ g1 @ ''_'' @ g2 @ ''.'' @
                          sc1 @ ''_'' @ sc2 @ ''_'' @ sc3 @ rest"
    using s gs by (simp add: wcag_pattern_def)
  moreover have "sc1 \<noteq> [] \<and> list_all is_digit sc1 \<and> sc2 \<noteq> [] \<and> list_all is_digit sc2 \<and>
           sc3 \<noteq> [] \<and> list_all is_digit sc3"
    using g gs by (simp add: wcag_pattern_def)
  ultimately show ?thesis
    using c by blast
qed

lemma reporter_alternative:
  assumes "opt_match wcag_pattern (code i) = None" and "opt_match alt_pattern (code i) = Some gs"
  shows "\<exists>pre a b c rest.
           code i = Some (pre @ a @ ''.'' @ b @ ''.'' @ c @ rest) \<and>
           a \<noteq> [] \<and> list_all is_digit a \<and> b \<noteq> [] \<and> list_all is_digit b \<and>
           c \<noteq> [] \<and> list_all is_digit c \<and>
           criterion_id i = Some (a @ ''.'' @ b @ ''.'' @ c)"
proof -
  from assms(2) obtain s where c: "code i = Some s" and m: "js_match alt_pattern s = Some gs"
    by (auto simp: opt_match_def split: option.splits)
  from js_match_sound [OF m] obtain pre rest where
    g: "groups_ok alt_pattern gs" and s: "s = pre @ instance_of alt_pattern gs @ rest"
    by blast
  from groups_ok_alt [OF g] obtain a b c where gs: "gs = [a, b, c]"
    by blast
  have "criterion_id i = Some (a @ ''.'' @ b @ ''.'' @ c)"
    using assms gs by (simp add: criterion_id_def criterion_of_def)
  moreover have "s = pre @ a @ ''.'' @ b @ ''.'' @ c @ rest"
    using s gs by (simp add: alt_pattern_def)
  moreover have "a \<noteq> [] \<and> list_all is_digit a \<and> b \<noteq> [] \<and> list_all is_digit b \<and>
           c \<noteq> [] \<and> list_all is_digit c"
    using g gs by (simp add: alt_pattern_def)
  ultimately show ?thesis
    using c by blast
qed

lemma reporter_skips:
  "code i = None \<Longrightarrow> criterion_id i = None"
  "criterion_id i = None \<Longrightarrow> map_step vbc i = vbc"
  by (auto simp: criterion_id_def criterion_of_def opt_match_def map_step_def split: option.splits)

text \<open>A code that holds a structured reference or a bare triple is matched.\<close>

lemma reporter_structured_found:
  assumes "code i = Some (pre @ ''Principle'' @ [p] @ ''.Guideline'' @ g1 @ ''_'' @ g2 @ ''.'' @
                          sc1 @ ''_'' @ sc2 @ ''_'' @ sc3 @ rest)"
    and "is_digit p" and "\<forall>g \<in> set [g1, g2, sc1, sc2, sc3]. g \<noteq> [] \<and> list_all is_digit g"
  shows "\<exists>gs. opt_match wcag_pattern (code i) = Some gs"
proof -
  have "groups_ok wcag_pattern [[p], g1, g2, sc1, sc2, sc3]"
    using assms by (simp add: wcag_pattern_def)
  from js_match_complete [OF this, of pre rest] show ?thesis
    using assms(1) by (simp add: opt_match_def wcag_pattern_def)
qed

lemma reporter_alternative_found:
  assumes "code i = Some (pre @ a @ ''.'' @ b @ ''.'' @ c @ rest)"
    and "\<forall>g \<in> set [a, b, c]. g \<noteq> [] \<and> list_all is_digit g"
  shows "\<exists>gs. opt_match alt_pattern (code i) = Some gs"
proof -
  have "groups_ok alt_pattern [a, b, c]"
    using assms by (simp add: alt_pattern_def)
  from js_match_complete [OF this, of pre rest] show ?thesis
    using assms(1) by (simp add: opt_match_def alt_pattern_def)
qed

section \<open>The Markdown mapping: the criterion of an issue\<close>

text \<open>
  When its pattern matches, the criterion is made of the two numbers after \<^verbatim>\<open>Guideline\<close>
  and the last number of the matched text; an issue without a code stops the mapping.
\<close>

lemma md_structured:
  assumes "code i = Some c" and "js_match md_pattern c = Some gs"
  shows "\<exists>pre g1 g2 sc1 sc2 sc3 rest.
           c = pre @ ''Guideline'' @ g1 @ ''_'' @ g2 @ ''.'' @ sc1 @ ''_'' @ sc2 @ ''_'' @ sc3 @ rest \<and>
           md_step vbc i = Inr (md_add vbc (g1 @ ''.'' @ g2 @ ''.'' @ sc3) i)"
proof -
  from js_match_sound [OF assms(2)] obtain pre rest where
    g: "groups_ok md_pattern gs" and s: "c = pre @ instance_of md_pattern gs @ rest"
    by blast
  from groups_ok_md [OF g] obtain g1 g2 sc1 sc2 sc3 where gs: "gs = [g1, g2, sc1, sc2, sc3]"
    by blast
  have "md_step vbc i = Inr (md_add vbc (g1 @ ''.'' @ g2 @ ''.'' @ sc3) i)"
    using assms gs by (simp add: md_step_def)
  moreover have "c = pre @ ''Guideline'' @ g1 @ ''_'' @ g2 @ ''.'' @ sc1 @ ''_'' @ sc2 @ ''_'' @ sc3 @ rest"
    using s gs by (simp add: md_pattern_def)
  ultimately show ?thesis
    by blast
qed

lemma md_skips_and_throws:
  "code i = None \<Longrightarrow> md_step vbc i = Inl TypeError"
  "code i = Some c \<Longrightarrow> js_match md_pattern c = None \<Longrightarrow> md_step vbc i = Inr vbc"
  by (simp_all add: md_step_def)

section \<open>Sums of doubles\<close>

lemma ulp_stop: "u = 0 \<or> n div u < 9007199254740992 \<Longrightarrow> ulp u n = u"
  by (subst ulp.simps) simp


text \<open>Below \<open>2^53\<close> every natural number is a double, and the addition is exact.\<close>

lemma double_round_exact:
  assumes "n < 9007199254740992"
  shows "double_round n = n"
proof -
  have "ulp 1 n = 1"
    using assms by (intro ulp_stop) simp
  then show ?thesis
    unfolding double_round_def by (simp add: Let_def)
qed

lemma double_add_exact:
  assumes "x + y < 9007199254740992"
  shows "double_add (enat x) (enat y) = enat (x + y)"
proof -
  have "(9007199254740992::nat) \<le> 2 ^ 1024"
    by simp
  with assms have "x + y < 2 ^ 1024"
    by (rule less_le_trans)
  with assms show ?thesis
    by (simp add: double_add_def double_round_exact)
qed

lemma foldl_double_add_exact:
  "a + sum_list ns < 9007199254740992 \<Longrightarrow>
     foldl (\<lambda>sum n. double_add sum (enat n)) (enat a) ns = enat (a + sum_list ns)"
proof (induction ns arbitrary: a)
  case Nil
  then show ?case by simp
next
  case (Cons n ns)
  from Cons.prems have s: "a + n < 9007199254740992" and r: "(a + n) + sum_list ns < 9007199254740992"
    by simp_all
  show ?case
    using Cons.IH [OF r] by (simp add: double_add_exact [OF s] add.assoc)
qed

lemma double_sum_exact:
  "sum_list ns < 9007199254740992 \<Longrightarrow> double_sum ns = enat (sum_list ns)"
  using foldl_double_add_exact [of 0 ns] by (simp add: double_sum_def zero_enat_def)






section \<open>The reporter: the closed form of the buckets\<close>

lemma add_violation_map_of:
  "map_of (add_violation vbc crit p i) k =
     (if k = crit
      then Some (case map_of vbc k of
                   None \<Rightarrow> \<lparr>principle = ''Prinsipp '' @ p, criterion = crit, b_issues = [to_violation i]\<rparr>
                 | Some b \<Rightarrow> b\<lparr>b_issues := b_issues b @ [to_violation i]\<rparr>)
      else map_of vbc k)"
  by (auto simp: add_violation_def Let_def map_of_update_key map_of_snoc
           simp del: map_of_append split: option.splits)

lemma map_step_map_of:
  "map_of (map_step vbc i) k =
     (if criterion_id i = Some k
      then Some (case map_of vbc k of
                   None \<Rightarrow> \<lparr>principle = ''Prinsipp '' @ snd (the (criterion_of i)), criterion = k,
                              b_issues = [to_violation i]\<rparr>
                 | Some b \<Rightarrow> b\<lparr>b_issues := b_issues b @ [to_violation i]\<rparr>)
      else map_of vbc k)"
  by (auto simp: map_step_def criterion_id_def add_violation_map_of split: option.splits)

lemma foldl_map_step_map_of:
  "map_of (foldl map_step vbc xs) c =
     (case map_of vbc c of
        Some b \<Rightarrow> Some (b\<lparr>b_issues := b_issues b @ map to_violation (filed xs c)\<rparr>)
      | None \<Rightarrow>
          (case filed xs c of
             [] \<Rightarrow> None
           | r # rest \<Rightarrow>
               Some \<lparr>principle = ''Prinsipp '' @ snd (the (criterion_of r)), criterion = c,
                     b_issues = map to_violation (filed xs c)\<rparr>))"
proof (induction xs arbitrary: vbc)
  case Nil
  then show ?case by (simp add: filed_def split: option.splits)
next
  case (Cons i xs)
  show ?case
    unfolding foldl_Cons Cons.IH map_step_map_of
    by (auto simp: filed_def split: option.splits list.splits)
qed

lemma totalElements_double_sum:
  "totalElements b = double_sum (map v_affectedElements (b_issues b))"
  by (simp add: totalElements_def double_sum_def foldl_map)

lemma bucket_counts_closed:
  "bucket_counts (foldl map_step [] xs) c =
     (if filed xs c = [] then None
      else Some (length (filter (\<lambda>i. type i = Some ''error'') (filed xs c)),
                 length (filter (\<lambda>i. type i = Some ''warning'') (filed xs c)),
                 double_sum (map affected_or_1 (filed xs c))))"
proof (cases "filed xs c")
  case Nil
  then show ?thesis
    by (simp add: bucket_counts_def foldl_map_step_map_of)
next
  case (Cons r rest)
  have m: "map_of (foldl map_step [] xs) c =
          Some \<lparr>principle = ''Prinsipp '' @ snd (the (criterion_of r)), criterion = c,
                b_issues = map to_violation (filed xs c)\<rparr>"
    by (simp add: foldl_map_step_map_of Cons)
  have n: "filed xs c \<noteq> []"
    using Cons by simp
  have a: "map v_affectedElements (map to_violation ys) = map affected_or_1 ys" for ys
    by (simp add: to_violation_def)
  show ?thesis
    unfolding bucket_counts_def m
    using n
    by (simp add: errorCount_def warningCount_def totalElements_double_sum a o_def
          to_violation_def del: map_map)
qed


text \<open>The counts of a bucket whose sum of elements stays below \<open>2^53\<close>.\<close>

lemma bucket_counts_small:
  assumes "filed (allIssues_of a) c \<noteq> []"
    and "sum_list (map affected_or_1 (filed (allIssues_of a) c)) < 9007199254740992"
  shows "bucket_counts (mapViolationsToWCAG a) c =
           Some (length (filter (\<lambda>i. type i = Some ''error'') (filed (allIssues_of a) c)),
                 length (filter (\<lambda>i. type i = Some ''warning'') (filed (allIssues_of a) c)),
                 enat (sum_list (map affected_or_1 (filed (allIssues_of a) c))))"
  using assms by (simp add: mapViolationsToWCAG_def bucket_counts_closed double_sum_exact)

section \<open>Permuted lists\<close>








section \<open>C7: the order of the pages and the counts\<close>




section \<open>C8: the empty input\<close>

text \<open>
  Claim C8. For an empty list of issues (of one page, of no page, of a page without
  issues, of a website without URLs) the reporter has no bucket, and the tally by impact is
  0 in all four fields.
\<close>

theorem empty_input:
  "mapViolationsToWCAG (issues_analysis []) = [] \<and>
   mapViolationsToWCAG (pages_analysis []) = [] \<and>
   mapViolationsToWCAG (pages_analysis [page_of u []]) = [] \<and>
   groupIssuesByType [] = Inr [] \<and>
   groupIssuesByImpact [] = \<lparr>critical = 0, serious = 0, moderate = 0, minor = 0\<rparr> \<and>
   issuesByImpact (analyzeWebsite pa11y []) = \<lparr>critical = 0, serious = 0, moderate = 0, minor = 0\<rparr> \<and>
   mapViolationsToWCAG (pages_analysis (pageAnalyses (analyzeWebsite pa11y []))) = []"
  by (simp add: mapViolationsToWCAG_def allIssues_of_def issues_analysis_def pages_analysis_def
        page_of_def groupIssuesByType_def groupIssuesByImpact_def analyzeWebsite_def)

section \<open>C4: the status of a criterion\<close>

lemma errorCount_pos: "(0 < errorCount b) = (\<exists>i \<in> set (b_issues b). v_type i = Some ''error'')"
  by (auto simp: errorCount_def filter_empty_conv)

lemma warningCount_pos: "(0 < warningCount b) = (\<exists>i \<in> set (b_issues b). v_type i = Some ''warning'')"
  by (auto simp: warningCount_def filter_empty_conv)

lemma excerpts_throws:
  "(excerpts vs = Inl e) = (e = TypeError \<and> (\<exists>i \<in> set vs. v_message i = None))"
  by (induction vs) (auto split: option.splits sum.splits)

text \<open>
  A row whose criterion has a bucket: the update throws exactly when one of the first three
  issues of the bucket has no message, and whenever it returns, the status follows the
  precedence of errors over warnings.
\<close>

lemma updateRow_throws:
  assumes "match_here alt_pattern (criterionText r) = Some (crit, gs)" and "map_of vbc crit = Some b"
  shows "(updateRow vbc r = Inl TypeError) =
           (\<exists>i \<in> set (take 3 (b_issues b)). v_message i = None)"
proof (cases "excerpts (take 3 (b_issues b))")
  case (Inl e)
  then have "e = TypeError" "\<exists>i \<in> set (take 3 (b_issues b)). v_message i = None"
    using excerpts_throws [of "take 3 (b_issues b)" e] by simp_all
  with Inl assms show ?thesis
    by (simp add: updateRow_def)
next
  case (Inr lines)
  then have "\<not> (\<exists>i \<in> set (take 3 (b_issues b)). v_message i = None)"
    using excerpts_throws [of "take 3 (b_issues b)" TypeError] by simp
  with Inr assms show ?thesis
    by (simp add: updateRow_def)
qed

lemma status_precedence_returned:
  assumes "match_here alt_pattern (criterionText r) = Some (crit, gs)" and "map_of vbc crit = Some b"
    and "updateRow vbc r = Inr r'"
  shows "status r' =
           (if \<exists>i \<in> set (b_issues b). v_type i = Some ''error'' then ''Ikke oppfylt''
            else if \<exists>i \<in> set (b_issues b). v_type i = Some ''warning'' then ''Advarsel''
            else ''Oppfylt'')"
  using assms
  by (auto simp: updateRow_def status_of_def errorCount_pos warningCount_pos split: sum.splits)


section \<open>C1: the criterion of a structured code\<close>

text \<open>
  Claim C1 asks both mappings to take the criterion of a structured code from its last
  three numbers. The reporter does. The Markdown mapping takes the two numbers after
  \<^verbatim>\<open>Guideline\<close> and the last number: for the code
  \<^verbatim>\<open>WCAG2AA.Principle1.Guideline1_4.2_5_3.G18.Fail\<close> the reporter files the issue under
  2.5.3 and the Markdown mapping under 1.4.3.
\<close>

theorem md_criterion_from_guideline:
  "criterion_id guideline_mismatch = Some ''2.5.3'' \<and>
   map fst (mapViolationsToWCAG (pages_analysis [page_of ''u'' [guideline_mismatch]])) = [''2.5.3''] \<and>
   mapViolationsToWCAG_md (pages_analysis [page_of ''u'' [guideline_mismatch]]) =
     Inr [(''1.4.3'', [md_violation_of guideline_mismatch])]"
proof -
  have "criterion_id guideline_mismatch = Some ''2.5.3''"
    by code_simp
  moreover have "map fst (mapViolationsToWCAG (pages_analysis [page_of ''u'' [guideline_mismatch]])) = [''2.5.3'']"
    by code_simp
  moreover have "mapViolationsToWCAG_md (pages_analysis [page_of ''u'' [guideline_mismatch]]) =
     Inr [(''1.4.3'', [md_violation_of guideline_mismatch])]"
    by code_simp
  ultimately show ?thesis by blast
qed

section \<open>C2: the alternative format\<close>

text \<open>
  Claim C2 asks both mappings to fall back to a bare triple of numbers. The reporter does:
  the issue with code \<^verbatim>\<open>2.4.2\<close> and type \<^verbatim>\<open>warning\<close> is one warning of criterion 2.4.2.
  The Markdown mapping has no second pattern and drops the issue.
\<close>

theorem md_has_no_fallback:
  "bucket_counts (mapViolationsToWCAG (pages_analysis [page_of ''u'' scenario2])) ''2.4.2'' = Some (0, 1, 1) \<and>
   mapViolationsToWCAG_md (pages_analysis [page_of ''u'' scenario2]) = Inr []"
proof -
  let ?xs = "filed (allIssues_of (pages_analysis [page_of ''u'' scenario2])) ''2.4.2''"
  have n: "length ?xs = 1"
    by code_simp
  have e: "length (filter (\<lambda>i. type i = Some ''error'') ?xs) = 0"
    by code_simp
  have w: "length (filter (\<lambda>i. type i = Some ''warning'') ?xs) = 1"
    by code_simp
  have s: "sum_list (map affected_or_1 ?xs) = 1"
    by code_simp
  have "?xs \<noteq> []"
    using n by auto
  from bucket_counts_small [OF this] e w s
  have "bucket_counts (mapViolationsToWCAG (pages_analysis [page_of ''u'' scenario2])) ''2.4.2'' = Some (0, 1, 1)"
    by (simp add: one_enat_def)
  moreover have "mapViolationsToWCAG_md (pages_analysis [page_of ''u'' scenario2]) = Inr []"
    by code_simp
  ultimately show ?thesis by blast
qed

section \<open>C3: issues without a code\<close>

text \<open>
  Claim C3 asks both mappings to skip an issue that has no code and to go on. The reporter
  does: the issue after it is filed. The Markdown mapping calls \<^verbatim>\<open>match\<close> on the absent
  code and throws.
\<close>

theorem md_throws_without_code:
  "bucket_counts (mapViolationsToWCAG (pages_analysis [page_of ''u'' (no_code # scenario1)])) ''1.4.3'' = Some (1, 0, 1) \<and>
   map fst (mapViolationsToWCAG (pages_analysis [page_of ''u'' (no_code # scenario1)])) = [''1.4.3''] \<and>
   mapViolationsToWCAG_md (pages_analysis [page_of ''u'' (no_code # scenario1)]) = Inl TypeError"
proof -
  let ?xs = "filed (allIssues_of (pages_analysis [page_of ''u'' (no_code # scenario1)])) ''1.4.3''"
  have n: "length ?xs = 1"
    by code_simp
  have e: "length (filter (\<lambda>i. type i = Some ''error'') ?xs) = 1"
    by code_simp
  have w: "length (filter (\<lambda>i. type i = Some ''warning'') ?xs) = 0"
    by code_simp
  have s: "sum_list (map affected_or_1 ?xs) = 1"
    by code_simp
  have "?xs \<noteq> []"
    using n by auto
  from bucket_counts_small [OF this] e w s
  have "bucket_counts (mapViolationsToWCAG (pages_analysis [page_of ''u'' (no_code # scenario1)])) ''1.4.3'' = Some (1, 0, 1)"
    by (simp add: one_enat_def)
  moreover have "map fst (mapViolationsToWCAG (pages_analysis [page_of ''u'' (no_code # scenario1)])) = [''1.4.3'']"
    by code_simp
  moreover have "mapViolationsToWCAG_md (pages_analysis [page_of ''u'' (no_code # scenario1)]) = Inl TypeError"
    by code_simp
  ultimately show ?thesis by blast
qed

end
